theory Spec2Isabelle
  imports
    Main
    "HOL-Library.Char_ord"
    "HOL-Library.List_Lexorder"
    "HOL-Library.Log_Nat"
    "HOL-Library.Multiset"
begin

section \<open>The values of Go's \<^verbatim>\<open>float64\<close>\<close>

text \<open>
  A \<^verbatim>\<open>float64\<close> is modelled by the value it denotes: a rational number, one of the two
  infinities, or NaN. The two zeros denote the same number and all NaNs are one value, so
  that equality of the model is Go's \<^verbatim>\<open>==\<close> except that NaN is equal to itself.
  Comparison is exact; addition and division round to the nearest binary64 value, ties
  to even, as the hardware does.
\<close>

datatype float64 = NaN | NInf | Fin rat | PInf

text \<open>Go's \<^verbatim>\<open>a < b\<close>: false as soon as one side is NaN.\<close>

fun flt :: "float64 \<Rightarrow> float64 \<Rightarrow> bool" where
  "flt NaN _ = False"
| "flt _ NaN = False"
| "flt _ NInf = False"
| "flt NInf _ = True"
| "flt PInf _ = False"
| "flt (Fin a) PInf = True"
| "flt (Fin a) (Fin b) = (a < b)"

text \<open>Go's \<^verbatim>\<open>a > b\<close>.\<close>

definition fgt :: "float64 \<Rightarrow> float64 \<Rightarrow> bool" where
  "fgt a b = flt b a"

text \<open>Rounding a rational to the nearest integer, ties to the even one.\<close>

definition rne :: "rat \<Rightarrow> int" where
  "rne x =
     (let f = \<lfloor>x\<rfloor>; r = x - of_int f
      in if r < 1 / 2 then f
         else if 1 / 2 < r then f + 1
         else if even f then f else f + 1)"

text \<open>The binary exponent of a positive rational: \<open>2 powi ilog2 x \<le> x < 2 powi (ilog2 x + 1)\<close>.\<close>

definition ilog2 :: "rat \<Rightarrow> int" where
  "ilog2 x =
     (let p = fst (quotient_of x); q = snd (quotient_of x);
          c = int (floorlog 2 (nat p)) - int (floorlog 2 (nat q))
      in if 2 powi c \<le> x then c else c - 1)"

text \<open>
  Rounding a positive rational to binary64: 53 significant bits, the least exponent of a
  normal number \<open>-1022\<close> (below it the spacing stays \<open>2 powi -1074\<close>).
\<close>

definition round_mag :: "rat \<Rightarrow> rat" where
  "round_mag a =
     (let e = max (ilog2 a) (- 1022);
          u = 2 powi (e - 52)
      in of_int (rne (a / u)) * u)"

text \<open>Rounding to binary64, with overflow to an infinity from \<open>2 powi 1024\<close> on.\<close>

definition round64 :: "rat \<Rightarrow> float64" where
  "round64 x =
     (if x = 0 then Fin 0
      else
        let r = round_mag \<bar>x\<bar>
        in if 2 powi 1024 \<le> r then (if 0 < x then PInf else NInf)
           else Fin (if 0 < x then r else - r))"

text \<open>Go's \<^verbatim>\<open>a + b\<close> on \<^verbatim>\<open>float64\<close>.\<close>

fun fadd :: "float64 \<Rightarrow> float64 \<Rightarrow> float64" where
  "fadd NaN _ = NaN"
| "fadd _ NaN = NaN"
| "fadd PInf NInf = NaN"
| "fadd NInf PInf = NaN"
| "fadd PInf _ = PInf"
| "fadd _ PInf = PInf"
| "fadd NInf _ = NInf"
| "fadd _ NInf = NInf"
| "fadd (Fin a) (Fin b) = round64 (a + b)"

text \<open>
  Go's \<^verbatim>\<open>a / b\<close> on \<^verbatim>\<open>float64\<close>. The only zero divisor the program produces is
  \<^verbatim>\<open>float64(0)\<close>, the positive zero, and the zero of the model is read as that one.
\<close>

fun fdiv :: "float64 \<Rightarrow> float64 \<Rightarrow> float64" where
  "fdiv NaN _ = NaN"
| "fdiv _ NaN = NaN"
| "fdiv PInf (Fin b) = (if 0 \<le> b then PInf else NInf)"
| "fdiv NInf (Fin b) = (if 0 \<le> b then NInf else PInf)"
| "fdiv PInf _ = NaN"
| "fdiv NInf _ = NaN"
| "fdiv (Fin a) PInf = Fin 0"
| "fdiv (Fin a) NInf = Fin 0"
| "fdiv (Fin a) (Fin b) =
     (if b = 0 then (if a = 0 then NaN else if 0 < a then PInf else NInf)
      else round64 (a / b))"

text \<open>Go's conversion \<^verbatim>\<open>float64(len(f))\<close>.\<close>

definition float64_of_len :: "nat \<Rightarrow> float64" where
  "float64_of_len n = round64 (of_nat n)"

section \<open>The part of package \<^verbatim>\<open>time\<close> that the program uses\<close>

text \<open>
  A \<^verbatim>\<open>time.Time\<close> is an instant together with a location. The program reads a time
  only through \<^verbatim>\<open>Location()\<close> and \<^verbatim>\<open>Format("20060102")\<close>, and builds one only with
  \<^verbatim>\<open>ParseInLocation("20060102", key, loc)\<close>, so a time is modelled by its calendar
  reading in its own location: year, month, day, the nanoseconds since that day's
  midnight, and the location. A location is identified by its name; the zone database
  behind it (offsets, daylight saving) is not modelled.
\<close>

datatype Location = Zone string

definition UTC :: Location where
  "UTC = Zone ''UTC''"

record Time =
  Year :: int
  Month :: nat
  Day :: nat
  Nanos :: nat
  Loc :: Location

text \<open>The zero value \<^verbatim>\<open>time.Time{}\<close>: January 1 of year 1, 00:00:00 UTC.\<close>

definition zero_Time :: Time where
  "zero_Time = \<lparr>Year = 1, Month = 1, Day = 1, Nanos = 0, Loc = UTC\<rparr>"

text \<open>\<^verbatim>\<open>isLeap\<close> and \<^verbatim>\<open>daysIn\<close> of package time.\<close>

definition isLeap :: "int \<Rightarrow> bool" where
  "isLeap y = (y mod 4 = 0 \<and> (y mod 100 \<noteq> 0 \<or> y mod 400 = 0))"

definition daysIn :: "nat \<Rightarrow> int \<Rightarrow> nat" where
  "daysIn m y =
     (if m = 2 then (if isLeap y then 29 else 28)
      else if m = 4 \<or> m = 6 \<or> m = 9 \<or> m = 11 then 30 else 31)"

text \<open>The times that package time can produce: a real day of the calendar.\<close>

definition valid_Time :: "Time \<Rightarrow> bool" where
  "valid_Time t =
     (1 \<le> Month t \<and> Month t \<le> 12 \<and> 1 \<le> Day t \<and> Day t \<le> daysIn (Month t) (Year t)
      \<and> Nanos t < 86400000000000)"

text \<open>\<^verbatim>\<open>appendInt\<close>: the decimal digits of \<open>x\<close>, padded with zeros to \<open>width\<close>, after a
  minus sign when \<open>x\<close> is negative.\<close>

definition digit_char :: "nat \<Rightarrow> char" where
  "digit_char d = char_of (48 + d)"

fun digits :: "nat \<Rightarrow> string" where
  "digits n = (if n < 10 then [digit_char n] else digits (n div 10) @ [digit_char (n mod 10)])"

declare digits.simps [simp del]

definition appendInt :: "int \<Rightarrow> nat \<Rightarrow> string" where
  "appendInt x width =
     (let ds = digits (nat \<bar>x\<bar>)
      in (if x < 0 then ''-'' else '''') @ replicate (width - length ds) (CHR ''0'') @ ds)"

text \<open>\<^verbatim>\<open>t.Format("20060102")\<close>: year (four digits or more), month and day (two digits).\<close>

definition Format_20060102 :: "Time \<Rightarrow> string" where
  "Format_20060102 t =
     appendInt (Year t) 4 @ appendInt (int (Month t)) 2 @ appendInt (int (Day t)) 2"

datatype error = ParseError string | RequestError string

datatype panic = MissingLocation

definition is_digit_char :: "char \<Rightarrow> bool" where
  "is_digit_char c = (CHR ''0'' \<le> c \<and> c \<le> CHR ''9'')"

definition isDigit :: "string \<Rightarrow> nat \<Rightarrow> bool" where
  "isDigit s i = (i < length s \<and> is_digit_char (s ! i))"

definition digit_val :: "char \<Rightarrow> nat" where
  "digit_val c = of_char c - 48"

text \<open>\<^verbatim>\<open>atoi\<close> on a string that starts with a digit: every character must be a digit.\<close>

definition atoi :: "string \<Rightarrow> nat option" where
  "atoi s =
     (if list_all is_digit_char s
      then Some (foldl (\<lambda>n c. 10 * n + digit_val c) 0 s) else None)"

text \<open>\<^verbatim>\<open>getnum(s, true)\<close>: exactly two digits.\<close>

definition getnum :: "string \<Rightarrow> (nat \<times> string) option" where
  "getnum s =
     (if \<not> isDigit s 0 then None
      else if \<not> isDigit s 1 then None
      else Some (digit_val (s ! 0) * 10 + digit_val (s ! 1), drop 2 s))"

text \<open>
  \<^verbatim>\<open>time.ParseInLocation("20060102", value, loc)\<close>. A value that does not parse gives
  the zero time and an error. A value that parses reaches \<^verbatim>\<open>Date\<close>, which panics on a
  nil location.
\<close>

definition ParseInLocation_20060102 ::
    "string \<Rightarrow> Location option \<Rightarrow> panic + (Time \<times> error option)" where
  "ParseInLocation_20060102 val l =
     (let bad = Inr (zero_Time, Some (ParseError val))
      in if length val < 4 \<or> \<not> isDigit val 0 then bad
         else
          (case atoi (take 4 val) of
             None \<Rightarrow> bad
           | Some y \<Rightarrow>
              (case getnum (drop 4 val) of
                 None \<Rightarrow> bad
               | Some (m, rest) \<Rightarrow>
                  (if m \<le> 0 \<or> 12 < m then bad
                   else
                    (case getnum rest of
                       None \<Rightarrow> bad
                     | Some (d, rest') \<Rightarrow>
                        (if rest' \<noteq> [] then bad
                         else if d < 1 \<or> daysIn m (int y) < d then bad
                         else
                          (case l of
                             None \<Rightarrow> Inl MissingLocation
                           | Some z \<Rightarrow>
                              Inr (\<lparr>Year = int y, Month = m, Day = d, Nanos = 0, Loc = z\<rparr>,
                                   None))))))))"

section \<open>Weather and the reducers of a forecast\<close>

record Weather =
  Date :: Time
  Temperature :: float64
  TemperatureMin :: float64
  TemperatureMax :: float64
  Humidity :: float64

type_synonym Forecast = "Weather list"

text \<open>\<^verbatim>\<open>MaximumTemperature\<close>: the loop keeps the running maximum, from \<open>-Inf\<close>.\<close>

definition MaximumTemperature :: "Forecast \<Rightarrow> float64" where
  "MaximumTemperature f =
     foldl (\<lambda>mx w. if fgt (TemperatureMax w) mx then TemperatureMax w else mx) NInf f"

definition MinimumTemperature :: "Forecast \<Rightarrow> float64" where
  "MinimumTemperature f =
     foldl (\<lambda>mn w. if flt (TemperatureMin w) mn then TemperatureMin w else mn) PInf f"

definition AverageTemperature :: "Forecast \<Rightarrow> float64" where
  "AverageTemperature f =
     fdiv (foldl (\<lambda>temp w. fadd temp (Temperature w)) (Fin 0) f) (float64_of_len (length f))"

definition AverageHumidity :: "Forecast \<Rightarrow> float64" where
  "AverageHumidity f =
     fdiv (foldl (\<lambda>hum w. fadd hum (Humidity w)) (Fin 0) f) (float64_of_len (length f))"

section \<open>Daily\<close>

text \<open>The variables of \<^verbatim>\<open>Daily\<close>'s first loop: the map of buckets, the keys in the
  order they were first seen, and the location (nil until the first observation).\<close>

record grouping =
  days :: "string \<rightharpoonup> Forecast"
  keys :: "string list"
  loc :: "Location option"

definition grouping_init :: grouping where
  "grouping_init = \<lparr>days = Map.empty, keys = [], loc = None\<rparr>"

text \<open>A read of the map at a missing key gives the nil slice.\<close>

definition bucket_of :: "(string \<rightharpoonup> Forecast) \<Rightarrow> string \<Rightarrow> Forecast" where
  "bucket_of m key = (case m key of None \<Rightarrow> [] | Some h \<Rightarrow> h)"

definition group_step :: "grouping \<Rightarrow> Weather \<Rightarrow> grouping" where
  "group_step s w =
     (let l = (if loc s = None then Some (Loc (Date w)) else loc s);
          key = Format_20060102 (Date w);
          ks = (if days s key = None then keys s @ [key] else keys s)
      in \<lparr>days = (days s)(key \<mapsto> bucket_of (days s) key @ [w]), keys = ks, loc = l\<rparr>)"

definition group_all :: "Forecast \<Rightarrow> grouping" where
  "group_all f = foldl group_step grouping_init f"

text \<open>The second loop, over the sorted keys.\<close>

fun emit :: "(string \<rightharpoonup> Forecast) \<Rightarrow> Location option \<Rightarrow> string list \<Rightarrow> Forecast
    \<Rightarrow> panic + Forecast" where
  "emit m l [] dailyForecast = Inr dailyForecast"
| "emit m l (key # ks) dailyForecast =
     (let hourly = bucket_of m key
      in (case ParseInLocation_20060102 key l of
            Inl p \<Rightarrow> Inl p
          | Inr (date, _) \<Rightarrow>
              emit m l ks
                (dailyForecast @
                 [\<lparr>Date = date,
                   Temperature = AverageTemperature hourly,
                   TemperatureMin = MinimumTemperature hourly,
                   TemperatureMax = MaximumTemperature hourly,
                   Humidity = AverageHumidity hourly\<rparr>])))"

definition Daily :: "Forecast \<Rightarrow> panic + Forecast" where
  "Daily f = (let s = group_all f in emit (days s) (loc s) (sort (keys s)) [])"

section \<open>What Daily computes, stated without the loops\<close>

text \<open>The day key of an observation, the observations of a forecast that have a given
  key, the date that the second loop gives to a key, and the summary of a bucket.\<close>

definition day_key :: "Weather \<Rightarrow> string" where
  "day_key w = Format_20060102 (Date w)"

definition day_bucket :: "Forecast \<Rightarrow> string \<Rightarrow> Forecast" where
  "day_bucket f k = filter (\<lambda>w. day_key w = k) f"

definition parsed_date :: "Location \<Rightarrow> string \<Rightarrow> Time" where
  "parsed_date z k =
     (case ParseInLocation_20060102 k (Some z) of Inl _ \<Rightarrow> zero_Time | Inr (d, _) \<Rightarrow> d)"

definition summary :: "Location \<Rightarrow> string \<Rightarrow> Forecast \<Rightarrow> Weather" where
  "summary z k hourly =
     \<lparr>Date = parsed_date z k,
      Temperature = AverageTemperature hourly,
      TemperatureMin = MinimumTemperature hourly,
      TemperatureMax = MaximumTemperature hourly,
      Humidity = AverageHumidity hourly\<rparr>"

text \<open>The two and four decimal digits of a number, most significant first.\<close>

definition twod :: "nat \<Rightarrow> string" where
  "twod n = [digit_char (n div 10), digit_char (n mod 10)]"

definition fourd :: "nat \<Rightarrow> string" where
  "fourd n = [digit_char (n div 1000), digit_char (n div 100 mod 10),
              digit_char (n div 10 mod 10), digit_char (n mod 10)]"

text \<open>The times whose day key parses back: a real day in a year of four digits.\<close>

definition parseable :: "Time \<Rightarrow> bool" where
  "parseable t = (valid_Time t \<and> 0 \<le> Year t \<and> Year t \<le> 9999)"

text \<open>\<^verbatim>\<open>t.Before(u)\<close> for two times of one location.\<close>

definition Before :: "Time \<Rightarrow> Time \<Rightarrow> bool" where
  "Before t u =
     (Year t < Year u \<or> Year t = Year u \<and>
       (Month t < Month u \<or> Month t = Month u \<and>
         (Day t < Day u \<or> Day t = Day u \<and> Nanos t < Nanos u)))"

text \<open>The day of a time, at midnight, in a location.\<close>

definition midnight :: "Time \<Rightarrow> Location \<Rightarrow> Time" where
  "midnight t z = \<lparr>Year = Year t, Month = Month t, Day = Day t, Nanos = 0, Loc = z\<rparr>"

text \<open>The invariant of the first loop: the keys are the keys of the map, each once.\<close>

definition keys_ok :: "grouping \<Rightarrow> bool" where
  "keys_ok s = (distinct (keys s) \<and> set (keys s) = dom (days s))"

section \<open>Example forecasts\<close>

text \<open>An observation with finite readings, and four observations over three days in
  two locations, not in the order of their days.\<close>

definition obs :: "int \<Rightarrow> nat \<Rightarrow> nat \<Rightarrow> nat \<Rightarrow> string \<Rightarrow> rat \<Rightarrow> rat \<Rightarrow> rat \<Rightarrow> rat \<Rightarrow> Weather" where
  "obs y m d ns z t tmin tmax h =
     \<lparr>Date = \<lparr>Year = y, Month = m, Day = d, Nanos = ns, Loc = Zone z\<rparr>,
      Temperature = Fin t, TemperatureMin = Fin tmin, TemperatureMax = Fin tmax,
      Humidity = Fin h\<rparr>"

definition jan3_morning :: Weather where
  "jan3_morning = obs 2024 1 3 32400000000000 ''America/New_York'' 60 50 70 40"

definition jan1_midnight :: Weather where
  "jan1_midnight = obs 2024 1 1 0 ''Europe/Paris'' 70 48 75 60"

definition jan2_noon :: Weather where
  "jan2_noon = obs 2024 1 2 43200000000000 ''America/New_York'' 64 55 68 50"

definition jan3_evening :: Weather where
  "jan3_evening = obs 2024 1 3 64800000000000 ''Europe/Paris'' 70 52 72 60"

definition sample :: Forecast where
  "sample = [jan3_morning, jan1_midnight, jan2_noon, jan3_evening]"

section \<open>Properties\<close>

subsection \<open>Rounding to binary64\<close>

lemma powi_diff_nat: "(2::rat) powi (int a - int b) = 2 ^ a / 2 ^ b"
  by (simp add: power_int_diff)

lemma ilog2_bounds:
  assumes "0 < x"
  shows "2 powi (ilog2 x) \<le> x" "x < 2 powi (ilog2 x + 1)"
proof -
  obtain p q where pq: "quotient_of x = (p, q)" by (cases "quotient_of x")
  have q: "0 < q" using quotient_of_denom_pos [OF pq] .
  have x: "x = of_int p / of_int q" using quotient_of_div [OF pq] .
  have p: "0 < p" using assms q unfolding x by (simp add: zero_less_divide_iff)
  define a where "a = floorlog 2 (nat p)"
  define b where "b = floorlog 2 (nat q)"
  have pa: "2 ^ (a - 1) \<le> nat p" "nat p < 2 ^ a"
    using floorlog_bounds [of "nat p" 2] p by (simp_all add: a_def)
  have qb: "2 ^ (b - 1) \<le> nat q" "nat q < 2 ^ b"
    using floorlog_bounds [of "nat q" 2] q by (simp_all add: b_def)
  have a1: "1 \<le> a" using pa(2) p by (cases a) simp_all
  have b1: "1 \<le> b" using qb(2) q by (cases b) simp_all
  have pr: "(2::rat) ^ (a - 1) \<le> of_int p" "of_int p < (2::rat) ^ a"
  proof -
    have "(of_nat (2 ^ (a - 1)) :: rat) \<le> of_nat (nat p)" using pa(1) by (simp only: of_nat_le_iff)
    then show "(2::rat) ^ (a - 1) \<le> of_int p" using p by simp
    have "(of_nat (nat p) :: rat) < of_nat (2 ^ a)" using pa(2) by (simp only: of_nat_less_iff)
    then show "of_int p < (2::rat) ^ a" using p by simp
  qed
  have qr: "(2::rat) ^ (b - 1) \<le> of_int q" "of_int q < (2::rat) ^ b"
  proof -
    have "(of_nat (2 ^ (b - 1)) :: rat) \<le> of_nat (nat q)" using qb(1) by (simp only: of_nat_le_iff)
    then show "(2::rat) ^ (b - 1) \<le> of_int q" using q by simp
    have "(of_nat (nat q) :: rat) < of_nat (2 ^ b)" using qb(2) by (simp only: of_nat_less_iff)
    then show "of_int q < (2::rat) ^ b" using q by simp
  qed
  have qpos: "(0::rat) < of_int q" using q by simp
  have up: "x < 2 powi (int a - int b + 1)"
  proof -
    have "x * of_int q = of_int p" using qpos by (simp add: x)
    also have "\<dots> < 2 ^ a" by (rule pr(2))
    also have "\<dots> = 2 powi (int a - int b + 1) * 2 ^ (b - 1)"
    proof -
      have "int a - int b + 1 = int a - int (b - 1)" using b1 by simp
      then show ?thesis by (simp only: powi_diff_nat) simp
    qed
    also have "\<dots> \<le> 2 powi (int a - int b + 1) * of_int q"
      by (rule mult_left_mono [OF qr(1)]) simp
    finally show ?thesis using qpos by simp
  qed
  have lo: "2 powi (int a - int b - 1) < x"
  proof -
    have "(2::rat) powi (int a - int b - 1) * of_int q < 2 powi (int a - int b - 1) * 2 ^ b"
      by (rule mult_strict_left_mono [OF qr(2)]) simp
    also have "\<dots> = 2 ^ (a - 1)"
    proof -
      have "int a - int b - 1 = int (a - 1) - int b" using a1 by simp
      then show ?thesis by (simp only: powi_diff_nat) simp
    qed
    also have "\<dots> \<le> of_int p" by (rule pr(1))
    also have "\<dots> = x * of_int q" using qpos by (simp add: x)
    finally show ?thesis using qpos by simp
  qed
  have il: "ilog2 x = (if 2 powi (int a - int b) \<le> x then int a - int b else int a - int b - 1)"
    by (simp add: ilog2_def pq a_def b_def Let_def)
  show "2 powi (ilog2 x) \<le> x"
    using lo by (simp add: il)
  show "x < 2 powi (ilog2 x + 1)"
    using up by (simp add: il)
qed

lemma powi2_less_cancel: "(2::rat) powi m < 2 powi n \<Longrightarrow> m < n"
proof (rule ccontr)
  assume a: "(2::rat) powi m < 2 powi n" and "\<not> m < n"
  then have "n \<le> m" by simp
  then have "(2::rat) powi n \<le> 2 powi m" by (rule power_int_increasing) simp
  with a show False by simp
qed

lemma ilog2_unique:
  assumes "0 < x" "2 powi k \<le> x" "x < 2 powi (k + 1)"
  shows "ilog2 x = k"
proof -
  have b: "2 powi (ilog2 x) \<le> x" "x < 2 powi (ilog2 x + 1)"
    using ilog2_bounds [OF assms(1)] by simp_all
  have "(2::rat) powi k < 2 powi (ilog2 x + 1)" using assms(2) b(2) by simp
  then have 1: "k < ilog2 x + 1" by (rule powi2_less_cancel)
  have "(2::rat) powi (ilog2 x) < 2 powi (k + 1)" using assms(3) b(1) by simp
  then have 2: "ilog2 x < k + 1" by (rule powi2_less_cancel)
  from 1 2 show ?thesis by simp
qed

lemma rne_of_int: "rne (of_int m) = m"
  by (simp add: rne_def)

lemma rne_ge: "of_int n \<le> x \<Longrightarrow> n \<le> rne x"
proof -
  assume "of_int n \<le> x"
  then have "n \<le> \<lfloor>x\<rfloor>" by (simp add: le_floor_iff)
  then show ?thesis by (simp add: rne_def Let_def)
qed

lemma rne_le: "x \<le> of_int n \<Longrightarrow> rne x \<le> n"
proof (cases "x = of_int n")
  case True
  then show ?thesis by (simp add: rne_of_int)
next
  case False
  assume "x \<le> of_int n"
  with False have "x < of_int n" by simp
  then have "\<lfloor>x\<rfloor> < n" by (simp add: floor_less_iff)
  then show ?thesis by (simp add: rne_def Let_def)
qed

lemma power_int_add_nat: "(2::rat) powi k * 2 ^ n = 2 powi (k + int n)"
  by (simp add: power_int_add)

lemma round_mag_idem:
  assumes a: "0 < a" and r: "0 < round_mag a"
  shows "round_mag (round_mag a) = round_mag a"
proof -
  define e where "e = max (ilog2 a) (- 1022)"
  define u :: rat where "u = 2 powi (e - 52)"
  define m where "m = rne (a / u)"
  have rm: "round_mag a = of_int m * u"
    by (simp add: round_mag_def e_def u_def m_def Let_def)
  have u0: "0 < u" by (simp add: u_def)
  have u52: "u * 2 ^ 52 = 2 powi (e)"
  proof -
    have "u * 2 ^ 52 = 2 powi (e - 52 + int 52)"
      unfolding u_def by (simp only: power_int_add_nat) 
    also have "e - 52 + int 52 = e" by simp
    finally show ?thesis .
  qed
  have u53: "u * 2 ^ 53 = 2 powi (e + 1)"
  proof -
    have "u * 2 ^ 53 = 2 powi (e - 52 + int 53)"
      unfolding u_def by (simp only: power_int_add_nat) 
    also have "e - 52 + int 53 = e + 1" by simp
    finally show ?thesis .
  qed
  have u54: "u * 2 ^ 54 = 2 powi (e + 2)"
  proof -
    have "u * 2 ^ 54 = 2 powi (e - 52 + int 54)"
      unfolding u_def by (simp only: power_int_add_nat) 
    also have "e - 52 + int 54 = e + 2" by simp
    finally show ?thesis .
  qed
  have e_ge: "- 1022 \<le> e" by (simp add: e_def)
  have m0: "0 < m" using r u0 by (simp add: rm zero_less_mult_iff)
  have a_lt: "a < 2 powi (e + 1)"
  proof -
    have "a < 2 powi (ilog2 a + 1)" by (rule ilog2_bounds(2) [OF a])
    also have "\<dots> \<le> 2 powi (e + 1)"
      by (rule power_int_increasing) (simp_all add: e_def)
    finally show ?thesis .
  qed
  have m_le: "m \<le> 2 ^ 53"
  proof -
    have "a / u \<le> 2 ^ 53" using a_lt u0 by (simp add: divide_le_eq u53 [symmetric] mult.commute)
    then have "a / u \<le> of_int (2 ^ 53)" by simp
    then show ?thesis unfolding m_def by (rule rne_le)
  qed
  have e_cases: "e = - 1022 \<or> 2 ^ 52 \<le> m"
  proof (cases "e = - 1022")
    case False
    then have "e = ilog2 a" by (simp add: e_def max_def split: if_splits)
    then have "2 powi e \<le> a" using ilog2_bounds(1) [OF a] by simp
    then have "of_int (2 ^ 52) \<le> a / u"
      using u0 by (simp add: le_divide_eq u52 [symmetric] mult.commute)
    then have "2 ^ 52 \<le> m" unfolding m_def by (rule rne_ge)
    then show ?thesis by simp
  qed simp
  have rpos: "0 < of_int m * u" using m0 u0 by simp
  show ?thesis
  proof (cases "m = 2 ^ 53")
    case True
    have val: "of_int m * u = 2 powi (e + 1)" using u53 by (simp add: True mult.commute)
    have il: "ilog2 (of_int m * u) = e + 1"
    proof (rule ilog2_unique [OF rpos])
      show "2 powi (e + 1) \<le> of_int m * u" by (simp add: val)
      have "(2::rat) powi (e + 1) < 2 powi (e + 1 + 1)"
        by (rule power_int_strict_increasing) simp_all
      then show "of_int m * u < 2 powi (e + 1 + 1)" by (simp add: val)
    qed
    have e': "max (ilog2 (of_int m * u)) (- 1022) = e + 1" using e_ge by (simp add: il)
    have u': "(2::rat) powi (e + 1 - 52) = u * 2"
    proof -
      have "u * 2 ^ 1 = 2 powi (e - 52 + int 1)"
        unfolding u_def by (simp only: power_int_add_nat)
      also have "e - 52 + int 1 = e + 1 - 52" by simp
      finally show ?thesis by simp
    qed
    have q: "of_int m * u / (u * 2) = of_int (2 ^ 52)" using u0 by (simp add: True)
    show ?thesis
      unfolding rm
      apply (subst round_mag_def)
      apply (simp only: Let_def e' u' q rne_of_int)
      apply (simp add: True)
      done
  next
    case False
    with m_le have m_lt: "m < 2 ^ 53" by simp
    have e': "max (ilog2 (of_int m * u)) (- 1022) = e"
    proof (cases "2 ^ 52 \<le> m")
      case True
      have "ilog2 (of_int m * u) = e"
      proof (rule ilog2_unique [OF rpos])
        have "(2::rat) ^ 52 \<le> of_int m" using True by (metis of_int_le_iff of_int_numeral of_int_power)
        then have "2 ^ 52 * u \<le> of_int m * u" using u0 by simp
        then show "2 powi e \<le> of_int m * u" by (simp add: u52 [symmetric] mult.commute)
        have "of_int m < (2::rat) ^ 53" using m_lt by (metis of_int_less_iff of_int_numeral of_int_power)
        then have "of_int m * u < 2 ^ 53 * u" using u0 by simp
        then show "of_int m * u < 2 powi (e + 1)" by (simp add: u53 [symmetric] mult.commute)
      qed
      then show ?thesis using e_ge by simp
    next
      case False
      then have e: "e = - 1022" using e_cases by simp
      have "of_int m < (2::rat) ^ 52" using False by (metis not_le of_int_less_iff of_int_numeral of_int_power)
      then have "of_int m * u < 2 ^ 52 * u" using u0 by simp
      then have "of_int m * u < 2 powi e" by (simp add: u52 [symmetric] mult.commute)
      moreover have "2 powi (ilog2 (of_int m * u)) \<le> of_int m * u"
        by (rule ilog2_bounds(1) [OF rpos])
      ultimately have "(2::rat) powi (ilog2 (of_int m * u)) < 2 powi e" by simp
      then have "ilog2 (of_int m * u) < e" by (rule powi2_less_cancel)
      then show ?thesis by (simp add: e)
    qed
    have q: "of_int m * u / u = of_int m" using u0 by simp
    show ?thesis
      unfolding rm
      apply (subst round_mag_def)
      apply (simp only: Let_def e' u_def [symmetric] q rne_of_int)
      done
  qed
qed

lemma round_mag_nonneg: "0 < a \<Longrightarrow> 0 \<le> round_mag a"
proof -
  assume a: "0 < a"
  define u :: rat where "u = 2 powi (max (ilog2 a) (- 1022) - 52)"
  have u0: "0 < u" by (simp add: u_def)
  have "of_int 0 \<le> a / u" using a u0 by simp
  then have "0 \<le> rne (a / u)" by (rule rne_ge)
  then show ?thesis using u0 by (simp add: round_mag_def Let_def u_def [symmetric])
qed

lemma round64_idem:
  assumes "round64 x = Fin r"
  shows "round64 r = Fin r"
proof (cases "x = 0")
  case True
  with assms show ?thesis by (simp add: round64_def)
next
  case False
  define rr where "rr = round_mag \<bar>x\<bar>"
  have ax: "0 < \<bar>x\<bar>" using False by simp
  have rr0: "0 \<le> rr" unfolding rr_def by (rule round_mag_nonneg [OF ax])
  have nov: "\<not> 2 powi 1024 \<le> rr" and r: "r = (if 0 < x then rr else - rr)"
    using assms False by (auto simp: round64_def Let_def rr_def split: if_splits)
  show ?thesis
  proof (cases "rr = 0")
    case True
    then show ?thesis by (simp add: r round64_def)
  next
    case False
    with rr0 have rpos: "0 < rr" by simp
    have idem: "round_mag rr = rr"
      unfolding rr_def by (rule round_mag_idem [OF ax]) (use rpos in \<open>simp add: rr_def\<close>)
    show ?thesis
    proof (cases "0 < x")
      case True
      then have "r = rr" by (simp add: r)
      then show ?thesis using rpos nov idem by (simp add: round64_def Let_def)
    next
      case False
      then have "r = - rr" by (simp add: r)
      then show ?thesis using rpos nov idem by (simp add: round64_def Let_def)
    qed
  qed
qed

subsection \<open>Formatting a day and parsing it back\<close>

lemma of_char_digit_char: "d < 10 \<Longrightarrow> of_char (digit_char d) = (48 + d :: nat)"
  by (simp add: digit_char_def)

lemma digit_val_digit_char: "d < 10 \<Longrightarrow> digit_val (digit_char d) = d"
  by (simp add: digit_val_def of_char_digit_char)

lemma is_digit_char_iff: "is_digit_char c \<longleftrightarrow> 48 \<le> (of_char c :: nat) \<and> (of_char c :: nat) \<le> 57"
  by (simp add: is_digit_char_def less_eq_char_def)

lemma is_digit_char_digit_char: "d < 10 \<Longrightarrow> is_digit_char (digit_char d)"
  by (simp add: is_digit_char_iff of_char_digit_char)

lemma digit_char_0: "digit_char 0 = CHR ''0''"
  by code_simp

lemma digits_1: "n < 10 \<Longrightarrow> digits n = [digit_char n]"
  by (subst digits.simps) simp

lemma digits_2: "10 \<le> n \<Longrightarrow> n < 100 \<Longrightarrow> digits n = [digit_char (n div 10), digit_char (n mod 10)]"
  by (subst digits.simps) (simp add: digits_1)

lemma digits_3: "100 \<le> n \<Longrightarrow> n < 1000 \<Longrightarrow>
   digits n = [digit_char (n div 100), digit_char (n div 10 mod 10), digit_char (n mod 10)]"
  by (subst digits.simps) (simp add: digits_2 div_mult2_eq[symmetric])

lemma digits_4: "1000 \<le> n \<Longrightarrow> n < 10000 \<Longrightarrow>
   digits n = [digit_char (n div 1000), digit_char (n div 100 mod 10),
               digit_char (n div 10 mod 10), digit_char (n mod 10)]"
  by (subst digits.simps) (simp add: digits_3 div_mult2_eq[symmetric])

lemma appendInt_2: "n < 100 \<Longrightarrow> appendInt (int n) 2 = twod n"
  by (cases "n < 10") (simp_all add: appendInt_def twod_def digits_1 digits_2 digit_char_0)

lemma appendInt_4: "n < 10000 \<Longrightarrow> appendInt (int n) 4 = fourd n"
proof -
  assume n: "n < 10000"
  consider "n < 10" | "10 \<le> n" "n < 100" | "100 \<le> n" "n < 1000" | "1000 \<le> n"
    by linarith
  then show ?thesis
  proof cases
    case 1 then show ?thesis
      by (simp add: appendInt_def fourd_def digits_1 digit_char_0 numeral_3_eq_3 numeral_2_eq_2)
  next
    case 2 then show ?thesis
      by (simp add: appendInt_def fourd_def digits_2 digit_char_0 numeral_3_eq_3 numeral_2_eq_2)
  next
    case 3 then show ?thesis
      by (simp add: appendInt_def fourd_def digits_3 digit_char_0)
  next
    case 4 then show ?thesis using n
      by (simp add: appendInt_def fourd_def digits_4 digit_char_0)
  qed
qed


lemma four_digits_value:
  "10 * (10 * (10 * (n div 1000) + n div 100 mod 10) + n div 10 mod 10) + n mod 10 = (n::nat)"
proof -
  have q2: "n div 100 = n div 10 div 10" and q3: "n div 1000 = n div 10 div 10 div 10"
    by (simp_all add: div_mult2_eq [symmetric])
  have "10 * (n div 10 div 10 div 10) + n div 10 div 10 mod 10 = n div 10 div 10"
    by (rule mult_div_mod_eq)
  moreover have "10 * (n div 10 div 10) + n div 10 mod 10 = n div 10"
    by (rule mult_div_mod_eq)
  moreover have "10 * (n div 10) + n mod 10 = n"
    by (rule mult_div_mod_eq)
  ultimately show ?thesis
    unfolding q2 q3 by (simp only:)
qed

lemma atoi_fourd: "n < 10000 \<Longrightarrow> atoi (fourd n) = Some n"
proof -
  assume n: "n < 10000"
  have d: "n div 1000 < 10" "n div 100 mod 10 < 10" "n div 10 mod 10 < 10" "n mod 10 < 10"
    using n by simp_all
  have "atoi (fourd n) =
     Some (10 * (10 * (10 * (n div 1000) + n div 100 mod 10) + n div 10 mod 10) + n mod 10)"
    using d by (simp add: atoi_def fourd_def is_digit_char_digit_char digit_val_digit_char)
  then show ?thesis
    by (simp only: four_digits_value)
qed

lemma getnum_twod: "m < 100 \<Longrightarrow> getnum (twod m @ rest) = Some (m, rest)"
proof -
  assume m: "m < 100"
  have d: "m div 10 < 10" "m mod 10 < 10" using m by simp_all
  show ?thesis
    using d by (simp add: getnum_def twod_def isDigit_def is_digit_char_digit_char
        digit_val_digit_char)
qed

lemma daysIn_le: "daysIn m y \<le> 31"
  by (simp add: daysIn_def)

lemma Format_in_range:
  assumes "valid_Time t" "0 \<le> Year t" "Year t \<le> 9999"
  shows "Format_20060102 t = fourd (nat (Year t)) @ twod (Month t) @ twod (Day t)"
proof -
  have "Day t \<le> 31" using assms(1) daysIn_le [of "Month t" "Year t"]
    by (simp add: valid_Time_def)
  moreover have "Month t \<le> 12" using assms(1) by (simp add: valid_Time_def)
  moreover have "appendInt (Year t) 4 = fourd (nat (Year t))"
    using appendInt_4 [of "nat (Year t)"] assms(2,3) by simp
  ultimately show ?thesis
    by (simp add: Format_20060102_def appendInt_2)
qed

lemma Parse_fields:
  assumes "y < 10000" "1 \<le> m" "m \<le> 12" "1 \<le> d" "d \<le> daysIn m (int y)"
  shows "ParseInLocation_20060102 (fourd y @ twod m @ twod d) (Some z) =
           Inr (\<lparr>Year = int y, Month = m, Day = d, Nanos = 0, Loc = z\<rparr>, None)"
proof -
  define val where "val = fourd y @ twod m @ twod d"
  have d: "d < 100" using assms(5) daysIn_le [of m "int y"] by simp
  have m: "m < 100" using assms(3) by simp
  have len: "\<not> length val < 4" by (simp add: fourd_def val_def)
  have dig: "isDigit val 0"
    using assms(1) by (simp add: isDigit_def fourd_def is_digit_char_digit_char val_def)
  have tk: "take 4 val = fourd y" "drop 4 val = twod m @ twod d"
    by (simp_all add: val_def fourd_def)
  have g1: "getnum (drop 4 val) = Some (m, twod d)"
    unfolding tk by (rule getnum_twod [OF m])
  have g2: "getnum (twod d) = Some (d, [])"
    using getnum_twod [OF d, of "[]"] by simp
  have a: "atoi (take 4 val) = Some y"
    unfolding tk by (rule atoi_fourd [OF assms(1)])
  have rng: "\<not> (m \<le> 0 \<or> 12 < m)" "\<not> (d < 1 \<or> daysIn m (int y) < d)"
    using assms by auto
  show ?thesis
    unfolding val_def [symmetric] ParseInLocation_20060102_def Let_def
    by (simp only: len dig a g1 g2 rng option.case prod.case if_False if_True simp_thms)
qed

lemma Parse_Format:
  assumes "valid_Time t" "0 \<le> Year t" "Year t \<le> 9999"
  shows "ParseInLocation_20060102 (Format_20060102 t) (Some z) =
           Inr (\<lparr>Year = Year t, Month = Month t, Day = Day t, Nanos = 0, Loc = z\<rparr>, None)"
  using Parse_fields [of "nat (Year t)" "Month t" "Day t" z] assms
  by (simp add: Format_in_range valid_Time_def)

subsection \<open>The order of day keys is the order of days\<close>

lemma digit_char_less: "a < 10 \<Longrightarrow> b < 10 \<Longrightarrow> (digit_char a < digit_char b) = (a < b)"
  by (simp add: less_char_def of_char_digit_char)

lemma digit_char_eq: "a < 10 \<Longrightarrow> b < 10 \<Longrightarrow> (digit_char a = digit_char b) = (a = b)"
proof -
  assume a: "a < 10" and b: "b < 10"
  show ?thesis
  proof
    assume h: "digit_char a = digit_char b"
    have "(of_char (digit_char a) :: nat) = of_char (digit_char b)" by (simp only: h)
    then have "48 + a = 48 + b" by (simp only: of_char_digit_char [OF a] of_char_digit_char [OF b])
    then show "a = b" by simp
  qed simp
qed

lemma two_digits_value: "10 * (n div 10) + n mod 10 = (n::nat)"
  by (rule mult_div_mod_eq)

lemma digits2_less:
  fixes a1 a0 b1 b0 :: nat
  assumes "a0 < 10" "b0 < 10"
  shows "(a1 < b1 \<or> a1 = b1 \<and> a0 < b0) = (10 * a1 + a0 < 10 * b1 + b0)"
  using assms by auto

lemma digits2_eq:
  fixes a1 a0 b1 b0 :: nat
  assumes "a0 < 10" "b0 < 10"
  shows "(10 * a1 + a0 = 10 * b1 + b0) = (a1 = b1 \<and> a0 = b0)"
proof
  assume h: "10 * a1 + a0 = 10 * b1 + b0"
  have "(10 * a1 + a0) mod 10 = a0" "(10 * b1 + b0) mod 10 = b0"
    using assms by simp_all
  then have 0: "a0 = b0" using h by simp
  have "(10 * a1 + a0) div 10 = a1" "(10 * b1 + b0) div 10 = b1"
    using assms by simp_all
  then have "a1 = b1" using h by simp
  with 0 show "a1 = b1 \<and> a0 = b0" by simp
qed simp

lemma digits4_less:
  fixes a3 a2 a1 a0 b3 b2 b1 b0 :: nat
  assumes "a2 < 10" "a1 < 10" "a0 < 10" "b2 < 10" "b1 < 10" "b0 < 10"
  shows "(a3 < b3 \<or> a3 = b3 \<and> (a2 < b2 \<or> a2 = b2 \<and> (a1 < b1 \<or> a1 = b1 \<and> a0 < b0)))
       = (10 * (10 * (10 * a3 + a2) + a1) + a0 < 10 * (10 * (10 * b3 + b2) + b1) + b0)"
proof -
  have l2: "(10 * a3 + a2 < 10 * b3 + b2) = (a3 < b3 \<or> a3 = b3 \<and> a2 < b2)"
    by (rule digits2_less [symmetric]) (use assms in simp_all)
  have e2: "(10 * a3 + a2 = 10 * b3 + b2) = (a3 = b3 \<and> a2 = b2)"
    by (rule digits2_eq) (use assms in simp_all)
  have l3: "(10 * (10 * a3 + a2) + a1 < 10 * (10 * b3 + b2) + b1)
          = (10 * a3 + a2 < 10 * b3 + b2 \<or> 10 * a3 + a2 = 10 * b3 + b2 \<and> a1 < b1)"
    by (rule digits2_less [symmetric]) (use assms in simp_all)
  have e3: "(10 * (10 * a3 + a2) + a1 = 10 * (10 * b3 + b2) + b1)
          = (10 * a3 + a2 = 10 * b3 + b2 \<and> a1 = b1)"
    by (rule digits2_eq) (use assms in simp_all)
  have l4: "(10 * (10 * (10 * a3 + a2) + a1) + a0 < 10 * (10 * (10 * b3 + b2) + b1) + b0)
          = (10 * (10 * a3 + a2) + a1 < 10 * (10 * b3 + b2) + b1
             \<or> 10 * (10 * a3 + a2) + a1 = 10 * (10 * b3 + b2) + b1 \<and> a0 < b0)"
    by (rule digits2_less [symmetric]) (use assms in simp_all)
  show ?thesis
    unfolding l4 l3 e3 l2 e2 by blast
qed

lemma twod_less: "m < 100 \<Longrightarrow> n < 100 \<Longrightarrow> (twod m < twod n) = (m < n)"
proof -
  assume m: "m < 100" and n: "n < 100"
  have d: "m div 10 < 10" "m mod 10 < 10" "n div 10 < 10" "n mod 10 < 10"
    using m n by simp_all
  have "(twod m < twod n) =
        (m div 10 < n div 10 \<or> m div 10 = n div 10 \<and> m mod 10 < n mod 10)"
    using d by (simp add: twod_def digit_char_less digit_char_eq)
  also have "\<dots> = (10 * (m div 10) + m mod 10 < 10 * (n div 10) + n mod 10)"
    by (rule digits2_less) (use d in simp_all)
  finally show ?thesis by (simp only: two_digits_value)
qed

lemma fourd_less: "m < 10000 \<Longrightarrow> n < 10000 \<Longrightarrow> (fourd m < fourd n) = (m < n)"
proof -
  assume m: "m < 10000" and n: "n < 10000"
  have d: "m div 1000 < 10" "m div 100 mod 10 < 10" "m div 10 mod 10 < 10" "m mod 10 < 10"
          "n div 1000 < 10" "n div 100 mod 10 < 10" "n div 10 mod 10 < 10" "n mod 10 < 10"
    using m n by simp_all
  have "(fourd m < fourd n) =
        (m div 1000 < n div 1000 \<or> m div 1000 = n div 1000 \<and>
          (m div 100 mod 10 < n div 100 mod 10 \<or> m div 100 mod 10 = n div 100 mod 10 \<and>
            (m div 10 mod 10 < n div 10 mod 10 \<or> m div 10 mod 10 = n div 10 mod 10 \<and>
              m mod 10 < n mod 10)))"
    using d by (simp add: fourd_def digit_char_less digit_char_eq)
  also have "\<dots> = (10 * (10 * (10 * (m div 1000) + m div 100 mod 10) + m div 10 mod 10) + m mod 10
                 < 10 * (10 * (10 * (n div 1000) + n div 100 mod 10) + n div 10 mod 10) + n mod 10)"
    by (rule digits4_less) (use d in simp_all)
  finally show ?thesis by (simp only: four_digits_value)
qed

lemma twod_inj: "m < 100 \<Longrightarrow> n < 100 \<Longrightarrow> (twod m = twod n) = (m = n)"
proof
  assume m: "m < 100" and n: "n < 100" and e: "twod m = twod n"
  show "m = n"
  proof (rule ccontr)
    assume "m \<noteq> n"
    then have "m < n \<or> n < m" by auto
    then have "twod m < twod n \<or> twod n < twod m"
      using twod_less [OF m n] twod_less [OF n m] by simp
    with e show False by simp
  qed
qed simp

lemma fourd_inj: "m < 10000 \<Longrightarrow> n < 10000 \<Longrightarrow> (fourd m = fourd n) = (m = n)"
proof
  assume m: "m < 10000" and n: "n < 10000" and e: "fourd m = fourd n"
  show "m = n"
  proof (rule ccontr)
    assume "m \<noteq> n"
    then have "m < n \<or> n < m" by auto
    then have "fourd m < fourd n \<or> fourd n < fourd m"
      using fourd_less [OF m n] fourd_less [OF n m] by simp
    with e show False by simp
  qed
qed simp

lemma append_less_same_length:
  fixes xs :: "'a::linorder list"
  shows "length xs = length xs' \<Longrightarrow> (xs @ ys < xs' @ ys') = (xs < xs' \<or> xs = xs' \<and> ys < ys')"
  by (induction xs xs' rule: list_induct2) auto

lemma Format_less:
  assumes "parseable t" "parseable u"
  shows "(Format_20060102 t < Format_20060102 u) =
         (Year t < Year u \<or> Year t = Year u \<and>
           (Month t < Month u \<or> Month t = Month u \<and> Day t < Day u))"
proof -
  have t: "nat (Year t) < 10000" "Month t < 100" "Day t < 100"
    using assms(1) daysIn_le [of "Month t" "Year t"] by (auto simp: parseable_def valid_Time_def)
  have u: "nat (Year u) < 10000" "Month u < 100" "Day u < 100"
    using assms(2) daysIn_le [of "Month u" "Year u"] by (auto simp: parseable_def valid_Time_def)
  have y: "(nat (Year t) < nat (Year u)) = (Year t < Year u)" "(nat (Year t) = nat (Year u)) = (Year t = Year u)"
    using assms by (auto simp: parseable_def)
  have l4: "length (fourd (nat (Year t))) = length (fourd (nat (Year u)))" by (simp add: fourd_def)
  have l2: "length (twod (Month t)) = length (twod (Month u))" by (simp add: twod_def)
  have ft: "Format_20060102 t = fourd (nat (Year t)) @ twod (Month t) @ twod (Day t)"
    using assms(1) by (simp add: Format_in_range parseable_def)
  have fu: "Format_20060102 u = fourd (nat (Year u)) @ twod (Month u) @ twod (Day u)"
    using assms(2) by (simp add: Format_in_range parseable_def)
  show ?thesis
    unfolding ft fu
    by (simp only: append_less_same_length [OF l4] append_less_same_length [OF l2]
        fourd_less [OF t(1) u(1)] fourd_inj [OF t(1) u(1)] twod_less [OF t(2) u(2)]
        twod_inj [OF t(2) u(2)] twod_less [OF t(3) u(3)] y)
qed

subsection \<open>The two loops of Daily\<close>

lemma loc_foldl_group:
  "loc (foldl group_step s f) =
     (case loc s of Some l \<Rightarrow> Some l
      | None \<Rightarrow> (case f of [] \<Rightarrow> None | w # _ \<Rightarrow> Some (Loc (Date w))))"
  by (induction f arbitrary: s) (auto simp: group_step_def Let_def split: option.splits list.splits)

lemma days_group_step:
  "days (group_step s w) = (days s)(day_key w \<mapsto> bucket_of (days s) (day_key w) @ [w])"
  by (simp add: group_step_def Let_def day_key_def)

lemma days_foldl_group:
  "days (foldl group_step s f) k =
     (if k \<in> day_key ` set f then Some (bucket_of (days s) k @ day_bucket f k) else days s k)"
proof (induction f arbitrary: s)
  case Nil
  then show ?case by simp
next
  case (Cons w f)
  show ?case
    by (auto simp add: Cons.IH days_group_step day_bucket_def bucket_of_def
        filter_empty_conv empty_filter_conv intro: rev_image_eqI)
qed

lemma keys_group_step:
  "keys (group_step s w) = (if days s (day_key w) = None then keys s @ [day_key w] else keys s)"
  by (simp add: group_step_def Let_def day_key_def)

lemma keys_ok_step: "keys_ok s \<Longrightarrow> keys_ok (group_step s w)"
  by (auto simp: keys_ok_def keys_group_step days_group_step)

lemma keys_ok_foldl: "keys_ok s \<Longrightarrow> keys_ok (foldl group_step s f)"
  by (induction f arbitrary: s) (simp_all add: keys_ok_step)

lemma dom_days_foldl: "dom (days (foldl group_step s f)) = dom (days s) \<union> day_key ` set f"
  by (auto simp: dom_def days_foldl_group split: if_splits)

lemma keys_ok_init: "keys_ok grouping_init"
  by (simp add: keys_ok_def grouping_init_def)

lemma keys_group_all:
  "distinct (keys (group_all f))" "set (keys (group_all f)) = day_key ` set f"
  using keys_ok_foldl [OF keys_ok_init, of f] dom_days_foldl [of grouping_init f]
  by (simp_all add: keys_ok_def group_all_def grouping_init_def)

lemma sort_keys_group_all:
  "sort (keys (group_all f)) = sorted_list_of_set (day_key ` set f)"
  using keys_group_all [of f]
  by (metis sorted_list_of_set_sort_remdups distinct_remdups_id)

lemma days_group_all:
  "k \<in> day_key ` set f \<Longrightarrow> bucket_of (days (group_all f)) k = day_bucket f k"
  by (simp add: group_all_def days_foldl_group grouping_init_def bucket_of_def)

lemma loc_group_all:
  "loc (group_all (w # f)) = Some (Loc (Date w))"
  by (simp add: group_all_def loc_foldl_group grouping_init_def del: foldl_Cons)

lemma parse_no_panic:
  "ParseInLocation_20060102 k (Some z) = Inr (parsed_date z k, snd (projr (ParseInLocation_20060102 k (Some z))))"
  by (simp add: ParseInLocation_20060102_def parsed_date_def Let_def split: option.splits prod.splits)

lemma emit_Some:
  "emit m (Some z) ks acc = Inr (acc @ map (\<lambda>k. summary z k (bucket_of m k)) ks)"
proof (induction ks arbitrary: acc)
  case Nil
  then show ?case by simp
next
  case (Cons k ks)
  show ?case
    apply (subst emit.simps)
    apply (subst parse_no_panic)
    apply (simp add: Cons.IH summary_def Let_def)
    done
qed

lemma Daily_Nil: "Daily [] = Inr []"
  by (simp add: Daily_def group_all_def grouping_init_def)

lemma Daily_Cons:
  "Daily (w # f) =
     Inr (map (\<lambda>k. summary (Loc (Date w)) k (day_bucket (w # f) k))
            (sorted_list_of_set (day_key ` set (w # f))))"
proof -
  have "map (\<lambda>k. summary (Loc (Date w)) k (bucket_of (days (group_all (w # f))) k))
            (sorted_list_of_set (day_key ` set (w # f)))
      = map (\<lambda>k. summary (Loc (Date w)) k (day_bucket (w # f) k))
            (sorted_list_of_set (day_key ` set (w # f)))"
    by (rule map_cong) (simp_all add: days_group_all del: set_simps)
  then show ?thesis
    by (simp add: Daily_def Let_def loc_group_all sort_keys_group_all emit_Some del: set_simps)
qed

subsection \<open>The claims\<close>

text \<open>
  C6. On the empty forecast \<^verbatim>\<open>MaximumTemperature\<close> returns negative infinity and
  \<^verbatim>\<open>MinimumTemperature\<close> returns positive infinity: values, not failures.
\<close>

theorem C6_empty_sentinels:
  "MaximumTemperature [] = NInf \<and> MinimumTemperature [] = PInf"
  by (simp add: MaximumTemperature_def MinimumTemperature_def)

text \<open>
  C5. Daily is total: on the empty forecast it returns the empty sequence, and on every
  forecast it returns a forecast. The only failure in its reach, the panic of
  \<^verbatim>\<open>Date\<close> on a nil location, cannot happen: the location is nil only when the forecast
  is empty, and then there is no key to parse.
\<close>

theorem C5_Daily_total:
  "Daily [] = Inr [] \<and> (\<exists>g. Daily f = Inr g)"
  by (cases f) (simp_all only: Daily_Nil Daily_Cons, simp_all)

text \<open>
  C4. The length of \<open>Daily f\<close> is the number of distinct day keys of the observations of
  \<open>f\<close>.
\<close>

theorem C4_length_Daily:
  "\<exists>g. Daily f = Inr g \<and> length g = card (day_key ` set f)"
proof (cases f)
  case Nil
  then show ?thesis by (simp add: Daily_Nil)
next
  case (Cons w f')
  show ?thesis
    unfolding Cons Daily_Cons by (simp del: set_simps)
qed

lemma Daily_char:
  "Daily f = Inr (map (\<lambda>k. summary (Loc (Date (hd f))) k (day_bucket f k))
                    (sorted_list_of_set (day_key ` set f)))"
  by (cases f) (simp_all only: Daily_Nil Daily_Cons list.sel, simp)

lemma parsed_date_day_key:
  "parseable (Date w) \<Longrightarrow> parsed_date z (day_key w) = midnight (Date w) z"
  by (simp add: parsed_date_def day_key_def Parse_Format parseable_def midnight_def)

lemma Format_midnight: "Format_20060102 (midnight t z) = Format_20060102 t"
  by (simp add: Format_20060102_def midnight_def)

lemma day_key_summary:
  "parseable (Date w) \<Longrightarrow> day_key (summary z (day_key w) b) = day_key w"
proof -
  assume p: "parseable (Date w)"
  have "day_key (summary z (day_key w) b) = Format_20060102 (parsed_date z (day_key w))"
    by (simp add: summary_def day_key_def)
  also have "\<dots> = Format_20060102 (Date w)"
    by (simp only: parsed_date_day_key [OF p] Format_midnight)
  finally show ?thesis by (simp add: day_key_def)
qed

lemma Before_midnight:
  assumes "parseable (Date w)" "parseable (Date w')" "day_key w < day_key w'"
  shows "Before (midnight (Date w) z) (midnight (Date w') z)"
  using assms(3) unfolding day_key_def Format_less [OF assms(1,2)]
  by (simp add: Before_def midnight_def)

lemma sum_list_none:
  fixes c :: "'a multiset"
  shows "a \<notin> set ks \<Longrightarrow> sum_list (map (\<lambda>k. if a = k then c else {#}) ks) = {#}"
  by (induction ks) auto

lemma sum_list_single:
  fixes c :: "'a multiset"
  shows "distinct ks \<Longrightarrow> a \<in> set ks \<Longrightarrow> sum_list (map (\<lambda>k. if a = k then c else {#}) ks) = c"
  by (induction ks) (auto simp: sum_list_none)

lemma sum_list_buckets:
  "distinct ks \<Longrightarrow> day_key ` set f \<subseteq> set ks \<Longrightarrow>
   sum_list (map (\<lambda>k. mset (day_bucket f k)) ks) = mset f"
proof (induction f)
  case Nil
  then show ?case by (simp add: day_bucket_def)
next
  case (Cons w f)
  have "sum_list (map (\<lambda>k. mset (day_bucket (w # f) k)) ks)
      = sum_list (map (\<lambda>k. (if day_key w = k then {#w#} else {#}) + mset (day_bucket f k)) ks)"
    by (rule arg_cong [where f = sum_list], rule map_cong) (auto simp: day_bucket_def)
  also have "\<dots> = sum_list (map (\<lambda>k. if day_key w = k then {#w#} else {#}) ks)
                 + sum_list (map (\<lambda>k. mset (day_bucket f k)) ks)"
    by (rule sum_list_addf)
  also have "\<dots> = {#w#} + mset f"
    using Cons by (simp add: sum_list_single)
  finally show ?case by simp
qed

text \<open>
  C3. The buckets that the first loop of Daily forms are a partition of the forecast:
  the keys are distinct, the buckets added up as multisets give the forecast, two
  buckets of different keys share no observation, and two observations of the forecast
  are in one bucket exactly when their dates format to the same day key.
\<close>

theorem C3_buckets_partition:
  "distinct (keys (group_all f)) \<and>
   sum_list (map (\<lambda>k. mset (bucket_of (days (group_all f)) k)) (keys (group_all f))) = mset f \<and>
   (\<forall>k\<in>set (keys (group_all f)). \<forall>k'\<in>set (keys (group_all f)). k \<noteq> k' \<longrightarrow>
      set (bucket_of (days (group_all f)) k) \<inter> set (bucket_of (days (group_all f)) k') = {}) \<and>
   (\<forall>w\<in>set f. \<forall>w'\<in>set f.
      (\<exists>k\<in>set (keys (group_all f)).
          w \<in> set (bucket_of (days (group_all f)) k) \<and> w' \<in> set (bucket_of (days (group_all f)) k))
      \<longleftrightarrow> Format_20060102 (Date w) = Format_20060102 (Date w'))"
proof -
  let ?ks = "keys (group_all f)"
  have ks: "distinct ?ks" "set ?ks = day_key ` set f" by (rule keys_group_all)+
  have b: "bucket_of (days (group_all f)) k = day_bucket f k" if "k \<in> set ?ks" for k
    using that by (simp add: ks(2) days_group_all)
  have m: "map (\<lambda>k. mset (bucket_of (days (group_all f)) k)) ?ks = map (\<lambda>k. mset (day_bucket f k)) ?ks"
    by (rule map_cong) (simp_all add: b)
  have "sum_list (map (\<lambda>k. mset (day_bucket f k)) ?ks) = mset f"
    by (rule sum_list_buckets [OF ks(1)]) (simp add: ks(2))
  then have s: "sum_list (map (\<lambda>k. mset (bucket_of (days (group_all f)) k)) ?ks) = mset f"
    by (simp only: m)
  have d: "\<forall>k\<in>set ?ks. \<forall>k'\<in>set ?ks. k \<noteq> k' \<longrightarrow>
      set (bucket_of (days (group_all f)) k) \<inter> set (bucket_of (days (group_all f)) k') = {}"
    by (auto simp: b day_bucket_def)
  have e: "\<forall>w\<in>set f. \<forall>w'\<in>set f.
      (\<exists>k\<in>set ?ks.
          w \<in> set (bucket_of (days (group_all f)) k) \<and> w' \<in> set (bucket_of (days (group_all f)) k))
      \<longleftrightarrow> Format_20060102 (Date w) = Format_20060102 (Date w')"
    by (auto simp: b day_bucket_def ks(2) day_key_def)
  from ks(1) s d e show ?thesis by blast
qed

lemma digit_char_simps:
  "digit_char 0 = CHR ''0''" "digit_char 1 = CHR ''1''" "digit_char 2 = CHR ''2''"
  "digit_char 3 = CHR ''3''" "digit_char 4 = CHR ''4''" "digit_char 5 = CHR ''5''"
  "digit_char 6 = CHR ''6''" "digit_char 7 = CHR ''7''" "digit_char 8 = CHR ''8''"
  "digit_char 9 = CHR ''9''" "digit_char (Suc 0) = CHR ''1''"
  by code_simp+

lemma Format_obs:
  "0 \<le> y \<Longrightarrow> y \<le> 9999 \<Longrightarrow> m < 100 \<Longrightarrow> d < 100 \<Longrightarrow>
   Format_20060102 (Date (obs y m d ns z t tmin tmax h)) = fourd (nat y) @ twod m @ twod d"
  using appendInt_4 [of "nat y"] by (simp add: obs_def Format_20060102_def appendInt_2)

lemma sample_day_keys:
  "Format_20060102 (Date jan3_morning) = ''20240103''"
  "Format_20060102 (Date jan1_midnight) = ''20240101''"
  "Format_20060102 (Date jan2_noon) = ''20240102''"
  "Format_20060102 (Date jan3_evening) = ''20240103''"
  by (simp_all add: jan3_morning_def jan1_midnight_def jan2_noon_def jan3_evening_def
      Format_obs fourd_def twod_def digit_char_simps)

lemma sample_keys: "keys (group_all sample) = [''20240103'', ''20240101'', ''20240102'']"
  by (simp add: sample_def group_all_def group_step_def grouping_init_def Let_def
      bucket_of_def sample_day_keys)

lemma sample_buckets:
  "bucket_of (days (group_all sample)) ''20240103'' = [jan3_morning, jan3_evening]"
  "bucket_of (days (group_all sample)) ''20240101'' = [jan1_midnight]"
  "bucket_of (days (group_all sample)) ''20240102'' = [jan2_noon]"
  by (simp_all add: sample_def group_all_def group_step_def grouping_init_def Let_def
      bucket_of_def sample_day_keys)

theorem C3_buckets_partition_witness:
  "keys (group_all sample) = [''20240103'', ''20240101'', ''20240102''] \<and>
   mset (bucket_of (days (group_all sample)) ''20240103'')
     + (mset (bucket_of (days (group_all sample)) ''20240101'')
     + mset (bucket_of (days (group_all sample)) ''20240102'')) = mset sample \<and>
   set (bucket_of (days (group_all sample)) ''20240103'')
     \<inter> set (bucket_of (days (group_all sample)) ''20240101'') = {}"
  using C3_buckets_partition [of sample] unfolding sample_keys by simp

end
